theory Spec2Isabelle
  imports Main "HOL-Library.Sublist" "HOL-Library.Word" "HOL-Library.Char_ord"
    "HOL-Library.List_Lexorder" "HOL-Library.Product_Lexorder" "HOL-Library.Option_ord"
begin

section \<open>Disk images of the civogo client (disk\_image.go)\<close>

text \<open>
  The Go file binds the disk-image endpoints of the API: it lists the catalog and drops
  two image families by name, fetches one image, resolves a free-form search string to an
  image, looks an image up by name and picks the highest version of a distribution.

  Go strings are byte sequences and so are HOL strings. Functions return a pair of a value
  and an error in Go; here they return a sum, \<open>Inl\<close> for the error (the value is then
  \<open>nil\<close> in the source).
\<close>

subsection \<open>Data\<close>

type_synonym bytes = string

text \<open>\<open>time.Time\<close>, as nanoseconds since the zero instant; no operation reads it.\<close>

type_synonym Time = int

record DiskImage =
  ID :: string
  Name :: string
  Version :: string
  State :: string
  InitialUser :: string
  Distribution :: string
  OS :: string
  Description :: string
  Label :: string
  DiskImageURL :: string
  DiskImageSizeBytes :: "64 word"
  LogoURL :: string
  CreatedAt :: Time
  CreatedBy :: string
  DistributionDefault :: bool

text \<open>The zero value \<open>DiskImage{}\<close>.\<close>

definition zeroDiskImage :: DiskImage where
  "zeroDiskImage =
     \<lparr>ID = [], Name = [], Version = [], State = [], InitialUser = [], Distribution = [],
      OS = [], Description = [], Label = [], DiskImageURL = [], DiskImageSizeBytes = 0,
      LogoURL = [], CreatedAt = 0, CreatedBy = [], DistributionDefault = False\<rparr>"

subsection \<open>Errors\<close>

text \<open>The two sentinel errors that the resolver wraps its message in.\<close>

datatype sentinel = MultipleMatchesError | ZeroMatchesError

text \<open>
  Error values: \<open>ErrorString\<close> is what \<open>errors.New\<close> and \<open>fmt.Errorf\<close> (without
  \<open>%w\<close>) build from a message; \<open>Foreign\<close> stands for an error value made outside this
  file (by the transport or by the JSON decoder), told apart by its message.

  Modelled from the spec: the sentinels' \<open>wrap\<close> method lives in errors.go, which is not
  among the sources; section 7 and the design notes describe it as sentinel wrapping, an
  error of the sentinel's kind that carries the wrapped error (here the message naming
  the search term). \<open>WrapError k e\<close> is the value of \<open>k.wrap(e)\<close>.
\<close>

datatype error =
    ErrorString string
  | Foreign string
  | WrapError sentinel error

definition wrap :: "sentinel \<Rightarrow> error \<Rightarrow> error" where
  "wrap k e = WrapError k e"

subsection \<open>Collaborators\<close>

text \<open>
  The client's transport: \<open>SendGetRequest\<close> maps a path to the response body or to an
  error. Every operation below sends one request.
\<close>

record Client =
  SendGetRequest :: "string \<Rightarrow> error + bytes"

text \<open>
  The loop variable of a Go \<open>for ... range\<close> statement is one variable per iteration
  since Go 1.22 and one variable for the whole loop before; which one applies is set by
  the module's \<open>go\<close> directive, outside this file.
\<close>

datatype loopvar = PerIteration | PerLoop

text \<open>
  What the file calls and does not define, and the language version, taken as parameters:
  \<^item> \<open>jsonDecodeList\<close> is \<open>json.NewDecoder(bytes.NewReader(resp)).Decode\<close> into a
    \<open>[]DiskImage\<close> (a JSON \<open>null\<close> leaves the empty slice);
  \<^item> \<open>jsonDecodeOne\<close> is the same into a \<open>*DiskImage\<close>, where a JSON \<open>null\<close> sets the
    pointer to \<open>nil\<close> (\<open>None\<close>);
  \<^item> \<open>decodeError\<close> is the error classification of errors.go;
  \<^item> \<open>semverCompare\<close> is \<open>semver.Compare\<close> of golang.org/x/mod;
  \<^item> \<open>loopVar\<close> is the semantics of loop variables.
\<close>

record Env =
  jsonDecodeList :: "bytes \<Rightarrow> error + DiskImage list"
  jsonDecodeOne :: "bytes \<Rightarrow> error + DiskImage option"
  decodeError :: "error \<Rightarrow> error"
  semverCompare :: "string \<Rightarrow> string \<Rightarrow> int"
  loopVar :: loopvar

subsection \<open>strings.Contains\<close>

text \<open>
  \<open>strings.Contains s substr\<close> reports whether \<open>substr\<close> occurs in \<open>s\<close>: it tries every
  start position, and the empty string occurs in every string.
\<close>

fun Contains :: "string \<Rightarrow> string \<Rightarrow> bool" where
  "Contains [] substr = (substr = [])"
| "Contains (c # s) substr = (prefix substr (c # s) \<or> Contains s substr)"

subsection \<open>ListDiskImages and GetDiskImage\<close>

definition includeCustomFlag :: "bool list \<Rightarrow> bool" where
  "includeCustomFlag includeCustom =
     (if length includeCustom > 0 then hd includeCustom else False)"

definition listURL :: "bool list \<Rightarrow> string" where
  "listURL includeCustom =
     (if includeCustomFlag includeCustom then ''/v2/disk_images'' @ ''?type=custom''
      else ''/v2/disk_images'')"

definition keepImage :: "DiskImage \<Rightarrow> bool" where
  "keepImage diskImage =
     (\<not> Contains (Name diskImage) ''k3s'' \<and> \<not> Contains (Name diskImage) ''talos'')"

fun filterLoop :: "DiskImage list \<Rightarrow> DiskImage list \<Rightarrow> DiskImage list" where
  "filterLoop filteredDiskImages [] = filteredDiskImages"
| "filterLoop filteredDiskImages (diskImage # rest) =
     (if keepImage diskImage then filterLoop (filteredDiskImages @ [diskImage]) rest
      else filterLoop filteredDiskImages rest)"

definition ListDiskImages :: "Env \<Rightarrow> Client \<Rightarrow> bool list \<Rightarrow> error + DiskImage list" where
  "ListDiskImages env c includeCustom =
     (case SendGetRequest c (listURL includeCustom) of
        Inl err \<Rightarrow> Inl (decodeError env err)
      | Inr resp \<Rightarrow>
          (case jsonDecodeList env resp of
             Inl err \<Rightarrow> Inl err
           | Inr diskImages \<Rightarrow> Inr (filterLoop [] diskImages)))"

definition GetDiskImage :: "Env \<Rightarrow> Client \<Rightarrow> string \<Rightarrow> error + DiskImage option" where
  "GetDiskImage env c id' =
     (case SendGetRequest c (''/v2/disk_images/'' @ id') of
        Inl err \<Rightarrow> Inl (decodeError env err)
      | Inr resp \<Rightarrow>
          (case jsonDecodeOne env resp of
             Inl err \<Rightarrow> Inl err
           | Inr diskImage \<Rightarrow> Inr diskImage))"

subsection \<open>FindDiskImage\<close>

text \<open>
  The three variables of the scan. \<open>partialMatchesCount\<close> is a Go \<open>int\<close>; it counts
  entries of a slice, whose length fits an \<open>int\<close>, so it never wraps and is an integer
  here.
\<close>

record findState =
  exactMatch :: bool
  partialMatchesCount :: int
  result :: DiskImage

definition findInit :: findState where
  "findInit = \<lparr>exactMatch = False, partialMatchesCount = 0, result = zeroDiskImage\<rparr>"

definition findStep :: "string \<Rightarrow> findState \<Rightarrow> DiskImage \<Rightarrow> findState" where
  "findStep search st v =
     (if Name v = search \<or> ID v = search
      then st\<lparr>exactMatch := True, result := v\<rparr>
      else if Contains (Name v) search \<or> Contains (ID v) search
      then (if \<not> exactMatch st
            then st\<lparr>result := v, partialMatchesCount := partialMatchesCount st + 1\<rparr>
            else st)
      else st)"

fun findLoop :: "string \<Rightarrow> findState \<Rightarrow> DiskImage list \<Rightarrow> findState" where
  "findLoop search st [] = st"
| "findLoop search st (v # templateList) = findLoop search (findStep search st v) templateList"

definition multipleMatchesMessage :: "string \<Rightarrow> string" where
  "multipleMatchesMessage search =
     ''unable to find '' @ search @ '' because there were multiple matches''"

definition zeroMatchesMessage :: "string \<Rightarrow> string" where
  "zeroMatchesMessage search = ''unable to find '' @ search @ '', zero matches''"

definition findDecision :: "string \<Rightarrow> findState \<Rightarrow> error + DiskImage" where
  "findDecision search st =
     (if exactMatch st \<or> partialMatchesCount st = 1 then Inr (result st)
      else if partialMatchesCount st > 1
      then Inl (wrap MultipleMatchesError (ErrorString (multipleMatchesMessage search)))
      else Inl (wrap ZeroMatchesError (ErrorString (zeroMatchesMessage search))))"

definition FindDiskImage :: "Env \<Rightarrow> Client \<Rightarrow> string \<Rightarrow> error + DiskImage" where
  "FindDiskImage env c search =
     (case ListDiskImages env c [] of
        Inl err \<Rightarrow> Inl (decodeError env err)
      | Inr templateList \<Rightarrow> findDecision search (findLoop search findInit templateList))"

subsection \<open>GetDiskImageByName\<close>

text \<open>
  The loop returns the address of its loop variable at once, so the variable still holds
  the matching entry when the caller reads it, whichever way loop variables are scoped.
\<close>

fun byNameLoop :: "string \<Rightarrow> DiskImage list \<Rightarrow> error + DiskImage" where
  "byNameLoop name [] = Inl (ErrorString ''diskimage not found'')"
| "byNameLoop name (diskimage # resp) =
     (if Name diskimage = name then Inr diskimage else byNameLoop name resp)"

definition GetDiskImageByName :: "Env \<Rightarrow> Client \<Rightarrow> string \<Rightarrow> error + DiskImage" where
  "GetDiskImageByName env c name =
     (case ListDiskImages env c [] of
        Inl err \<Rightarrow> Inl (decodeError env err)
      | Inr resp \<Rightarrow> byNameLoop name resp)"

subsection \<open>GetMostRecentDistro\<close>

text \<open>
  \<open>highestVersionDistro\<close> is a pointer to the loop variable \<open>diskimage\<close>, so the scan is
  modelled over a store from addresses to entries. Iteration \<open>i\<close> assigns the entry to
  its loop variable, at address \<open>i\<close> when every iteration has a variable of its own and at
  address \<open>0\<close> when the loop has one variable; the pointer holds an address, and both
  sides of the comparison are read through the store. The caller reads the returned
  pointer in the final store.
\<close>

type_synonym addr = nat

definition loopVarAddr :: "loopvar \<Rightarrow> nat \<Rightarrow> addr" where
  "loopVarAddr lv i = (case lv of PerIteration \<Rightarrow> i | PerLoop \<Rightarrow> 0)"

record distroState =
  store :: "addr \<Rightarrow> DiskImage"
  highestVersionDistro :: "addr option"

definition distroInit :: distroState where
  "distroInit = \<lparr>store = (\<lambda>a. zeroDiskImage), highestVersionDistro = None\<rparr>"

definition distroStep :: "Env \<Rightarrow> string \<Rightarrow> nat \<Rightarrow> distroState \<Rightarrow> DiskImage \<Rightarrow> distroState" where
  "distroStep env name i st v =
     (let diskimage = loopVarAddr (loopVar env) i;
          st1 = st\<lparr>store := (store st)(diskimage := v)\<rparr>
      in if Contains (Name (store st1 diskimage)) name
         then (case highestVersionDistro st1 of
                 None \<Rightarrow> st1\<lparr>highestVersionDistro := Some diskimage\<rparr>
               | Some h \<Rightarrow>
                   (if semverCompare env (Version (store st1 h))
                         (Version (store st1 diskimage)) < 0
                    then st1\<lparr>highestVersionDistro := Some diskimage\<rparr>
                    else st1))
         else st1)"

fun distroLoop :: "Env \<Rightarrow> string \<Rightarrow> nat \<Rightarrow> distroState \<Rightarrow> DiskImage list \<Rightarrow> distroState" where
  "distroLoop env name i st [] = st"
| "distroLoop env name i st (v # resp) =
     distroLoop env name (Suc i) (distroStep env name i st v) resp"

definition GetMostRecentDistro :: "Env \<Rightarrow> Client \<Rightarrow> string \<Rightarrow> error + DiskImage" where
  "GetMostRecentDistro env c name =
     (case ListDiskImages env c [] of
        Inl err \<Rightarrow> Inl (decodeError env err)
      | Inr resp \<Rightarrow>
          (case highestVersionDistro (distroLoop env name 0 distroInit resp) of
             None \<Rightarrow> Inl (ErrorString (name @ '' image not found''))
           | Some h \<Rightarrow> Inr (store (distroLoop env name 0 distroInit resp) h)))"

subsection \<open>The semver library\<close>

text \<open>
  \<open>semver.Compare\<close> is imported from golang.org/x/mod/semver. The operations above take
  it as the parameter \<open>semverCompare\<close>; the definitions here follow the library's
  functions, so that the parameter can be set to what the program links against. A version
  is valid when it is \<open>v\<close>, a major number, optionally a minor and a patch number, and
  after a patch number optionally a pre-release and build suffix.
\<close>

definition isDigit :: "char \<Rightarrow> bool" where
  "isDigit c = (CHR ''0'' \<le> c \<and> c \<le> CHR ''9'')"

definition isIdentChar :: "char \<Rightarrow> bool" where
  "isIdentChar c =
     ((CHR ''A'' \<le> c \<and> c \<le> CHR ''Z'') \<or> (CHR ''a'' \<le> c \<and> c \<le> CHR ''z'') \<or>
      (CHR ''0'' \<le> c \<and> c \<le> CHR ''9'') \<or> c = CHR ''-'')"

definition isBadNum :: "string \<Rightarrow> bool" where
  "isBadNum v = (list_all isDigit v \<and> length v > 1 \<and> hd v = CHR ''0'')"

definition isNum :: "string \<Rightarrow> bool" where
  "isNum v = list_all isDigit v"

definition parseInt :: "string \<Rightarrow> (string \<times> string) option" where
  "parseInt v =
     (if v = [] then None
      else if \<not> isDigit (hd v) then None
      else if hd v = CHR ''0'' \<and> length (takeWhile isDigit v) \<noteq> 1 then None
      else Some (takeWhile isDigit v, dropWhile isDigit v))"

text \<open>
  The scan of \<open>parsePrerelease\<close>: \<open>seen\<close> is \<open>v[:i]\<close>, \<open>cur\<close> is \<open>v[start:i]\<close> and the
  last argument is \<open>v[i:]\<close>.
\<close>

fun prereleaseLoop :: "string \<Rightarrow> string \<Rightarrow> string \<Rightarrow> (string \<times> string) option" where
  "prereleaseLoop seen cur [] =
     (if cur = [] \<or> isBadNum cur then None else Some (seen, []))"
| "prereleaseLoop seen cur (c # rest) =
     (if c = CHR ''+'' then
        (if cur = [] \<or> isBadNum cur then None else Some (seen, c # rest))
      else if \<not> isIdentChar c \<and> c \<noteq> CHR ''.'' then None
      else if c = CHR ''.'' then
        (if cur = [] \<or> isBadNum cur then None else prereleaseLoop (seen @ [c]) [] rest)
      else prereleaseLoop (seen @ [c]) (cur @ [c]) rest)"

definition parsePrerelease :: "string \<Rightarrow> (string \<times> string) option" where
  "parsePrerelease v =
     (if v = [] \<or> hd v \<noteq> CHR ''-'' then None else prereleaseLoop [hd v] [] (tl v))"

fun buildLoop :: "string \<Rightarrow> string \<Rightarrow> string \<Rightarrow> (string \<times> string) option" where
  "buildLoop seen cur [] = (if cur = [] then None else Some (seen, []))"
| "buildLoop seen cur (c # rest) =
     (if \<not> isIdentChar c \<and> c \<noteq> CHR ''.'' then None
      else if c = CHR ''.'' then
        (if cur = [] then None else buildLoop (seen @ [c]) [] rest)
      else buildLoop (seen @ [c]) (cur @ [c]) rest)"

definition parseBuild :: "string \<Rightarrow> (string \<times> string) option" where
  "parseBuild v =
     (if v = [] \<or> hd v \<noteq> CHR ''+'' then None else buildLoop [hd v] [] (tl v))"

record parsed =
  major :: string
  minor :: string
  patch :: string
  short :: string
  prerelease :: string
  build :: string

definition parseSuffix :: "string \<Rightarrow> string \<Rightarrow> string \<Rightarrow> string \<Rightarrow> parsed option" where
  "parseSuffix ma mi pa v =
     (case (if v \<noteq> [] \<and> hd v = CHR ''-'' then parsePrerelease v else Some ([], v)) of
        None \<Rightarrow> None
      | Some (pre, v') \<Rightarrow>
          (case (if v' \<noteq> [] \<and> hd v' = CHR ''+'' then parseBuild v' else Some ([], v')) of
             None \<Rightarrow> None
           | Some (bld, v'') \<Rightarrow>
               (if v'' \<noteq> [] then None
                else Some \<lparr>major = ma, minor = mi, patch = pa, short = [],
                           prerelease = pre, build = bld\<rparr>)))"

definition parse :: "string \<Rightarrow> parsed option" where
  "parse v =
     (if v = [] \<or> hd v \<noteq> CHR ''v'' then None
      else case parseInt (tl v) of
        None \<Rightarrow> None
      | Some (ma, v1) \<Rightarrow>
          (if v1 = [] then
             Some \<lparr>major = ma, minor = ''0'', patch = ''0'', short = ''.0.0'',
                   prerelease = [], build = []\<rparr>
           else if hd v1 \<noteq> CHR ''.'' then None
           else case parseInt (tl v1) of
             None \<Rightarrow> None
           | Some (mi, v2) \<Rightarrow>
               (if v2 = [] then
                  Some \<lparr>major = ma, minor = mi, patch = ''0'', short = ''.0'',
                        prerelease = [], build = []\<rparr>
                else if hd v2 \<noteq> CHR ''.'' then None
                else case parseInt (tl v2) of
                  None \<Rightarrow> None
                | Some (pa, v3) \<Rightarrow> parseSuffix ma mi pa v3)))"

definition semver_IsValid :: "string \<Rightarrow> bool" where
  "semver_IsValid v = (parse v \<noteq> None)"

definition compareInt :: "string \<Rightarrow> string \<Rightarrow> int" where
  "compareInt x y =
     (if x = y then 0
      else if length x < length y then - 1
      else if length x > length y then 1
      else if x < y then - 1 else 1)"

definition nextIdent :: "string \<Rightarrow> string \<times> string" where
  "nextIdent x = (takeWhile (\<lambda>c. c \<noteq> CHR ''.'') x, dropWhile (\<lambda>c. c \<noteq> CHR ''.'') x)"

definition compareIdent :: "string \<Rightarrow> string \<Rightarrow> int" where
  "compareIdent dx dy =
     (if isNum dx \<noteq> isNum dy then (if isNum dx then - 1 else 1)
      else if isNum dx \<and> length dx < length dy then - 1
      else if isNum dx \<and> length dx > length dy then 1
      else if dx < dy then - 1 else 1)"

function prereleaseCompareLoop :: "string \<Rightarrow> string \<Rightarrow> int" where
  "prereleaseCompareLoop x y =
     (if x \<noteq> [] \<and> y \<noteq> [] then
        (if fst (nextIdent (tl x)) \<noteq> fst (nextIdent (tl y))
         then compareIdent (fst (nextIdent (tl x))) (fst (nextIdent (tl y)))
         else prereleaseCompareLoop (snd (nextIdent (tl x))) (snd (nextIdent (tl y))))
      else if x = [] then - 1 else 1)"
  by pat_completeness auto
termination
proof (relation "measure (\<lambda>(x, y). length x)")
  show "wf (measure (\<lambda>(x, y). length x))"
    by simp
next
  fix x y :: string
  assume "x \<noteq> [] \<and> y \<noteq> []"
  then have "length (dropWhile (\<lambda>c. c \<noteq> CHR ''.'') (tl x)) < length x"
    using length_dropWhile_le [of "\<lambda>c. c \<noteq> CHR ''.''" "tl x"]
    by (cases x) auto
  then show "((snd (nextIdent (tl x)), snd (nextIdent (tl y))), (x, y))
      \<in> measure (\<lambda>(x, y). length x)"
    by (simp add: nextIdent_def)
qed

definition comparePrerelease :: "string \<Rightarrow> string \<Rightarrow> int" where
  "comparePrerelease x y =
     (if x = y then 0
      else if x = [] then 1
      else if y = [] then - 1
      else prereleaseCompareLoop x y)"

definition semver_Compare :: "string \<Rightarrow> string \<Rightarrow> int" where
  "semver_Compare v w =
     (case (parse v, parse w) of
        (None, None) \<Rightarrow> 0
      | (None, Some pw) \<Rightarrow> - 1
      | (Some pv, None) \<Rightarrow> 1
      | (Some pv, Some pw) \<Rightarrow>
          (if compareInt (major pv) (major pw) \<noteq> 0 then compareInt (major pv) (major pw)
           else if compareInt (minor pv) (minor pw) \<noteq> 0 then compareInt (minor pv) (minor pw)
           else if compareInt (patch pv) (patch pw) \<noteq> 0 then compareInt (patch pv) (patch pw)
           else comparePrerelease (prerelease pv) (prerelease pw)))"

subsection \<open>The comparison as an order\<close>

text \<open>
  The sign of a comparison in a linear order, and a key for every version such that
  \<open>semver.Compare\<close> is the sign of comparing keys: an invalid version has the least key; a
  number is compared by length, then as a string; a version without pre-release is above
  one with; a pre-release is the list of its dot-separated identifiers, a numeric
  identifier below any other and compared by length first.
\<close>

definition orderSign :: "'a::linorder \<Rightarrow> 'a \<Rightarrow> int" where
  "orderSign a b = (if a < b then - 1 else if a = b then 0 else 1)"

fun splitDots :: "string \<Rightarrow> string list" where
  "splitDots [] = [[]]"
| "splitDots (c # s) =
     (if c = CHR ''.'' then [] # splitDots s
      else (case splitDots s of [] \<Rightarrow> [[c]] | i # is \<Rightarrow> (c # i) # is))"

definition identKey :: "string \<Rightarrow> nat \<times> nat \<times> string" where
  "identKey i = (if isNum i then (0, length i, i) else (1, 0, i))"

definition prereleaseKey :: "string \<Rightarrow> bool \<times> (nat \<times> nat \<times> string) list" where
  "prereleaseKey p = (if p = [] then (True, []) else (False, map identKey (splitDots (tl p))))"

definition intKey :: "string \<Rightarrow> nat \<times> string" where
  "intKey x = (length x, x)"

definition semverKey ::
  "string \<Rightarrow> ((nat \<times> string) \<times> (nat \<times> string) \<times> (nat \<times> string) \<times>
     bool \<times> (nat \<times> nat \<times> string) list) option" where
  "semverKey v =
     map_option (\<lambda>p. (intKey (major p), intKey (minor p), intKey (patch p),
        prereleaseKey (prerelease p))) (parse v)"

text \<open>A pre-release as the parser returns it: empty, or starting with the hyphen.\<close>

definition prereleaseShape :: "string \<Rightarrow> bool" where
  "prereleaseShape p = (p = [] \<or> hd p = CHR ''-'')"

subsection \<open>Vocabulary of the properties\<close>

text \<open>An exact match of a search string, and an occurrence of it in the name or the id.\<close>

definition isExact :: "string \<Rightarrow> DiskImage \<Rightarrow> bool" where
  "isExact search e = (Name e = search \<or> ID e = search)"

definition isPartial :: "string \<Rightarrow> DiskImage \<Rightarrow> bool" where
  "isPartial search e = (sublist search (Name e) \<or> sublist search (ID e))"

definition excluded :: "DiskImage \<Rightarrow> bool" where
  "excluded e = (sublist ''k3s'' (Name e) \<or> sublist ''talos'' (Name e))"

definition nameHas :: "string \<Rightarrow> DiskImage \<Rightarrow> bool" where
  "nameHas name e = sublist name (Name e)"

text \<open>
  The selection on values instead of addresses: the candidate is replaced when the
  comparison says it is strictly lower than the next entry.
\<close>

definition pickStep :: "(string \<Rightarrow> string \<Rightarrow> int) \<Rightarrow> DiskImage option \<Rightarrow> DiskImage \<Rightarrow> DiskImage option" where
  "pickStep cmp best e =
     (case best of
        None \<Rightarrow> Some e
      | Some b \<Rightarrow> (if cmp (Version b) (Version e) < 0 then Some e else Some b))"

fun pickLoop :: "(string \<Rightarrow> string \<Rightarrow> int) \<Rightarrow> DiskImage option \<Rightarrow> DiskImage list \<Rightarrow> DiskImage option" where
  "pickLoop cmp best [] = best"
| "pickLoop cmp best (e # es) = pickLoop cmp (pickStep cmp best e) es"

text \<open>
  What the selection needs of the comparison on the versions at hand: the sign of a
  comparison flips with its arguments, and "not greater" is transitive.
\<close>

definition versionOrder :: "(string \<Rightarrow> string \<Rightarrow> int) \<Rightarrow> DiskImage list \<Rightarrow> bool" where
  "versionOrder cmp es =
     ((\<forall>a\<in>set es. \<forall>b\<in>set es.
         (cmp (Version a) (Version b) < 0) = (0 < cmp (Version b) (Version a))) \<and>
      (\<forall>a\<in>set es. \<forall>b\<in>set es. \<forall>c\<in>set es.
         cmp (Version a) (Version b) \<le> 0 \<and> cmp (Version b) (Version c) \<le> 0 \<longrightarrow>
         cmp (Version a) (Version c) \<le> 0))"

text \<open>What the pointer of the scan denotes in its store.\<close>

definition readPtr :: "distroState \<Rightarrow> DiskImage option" where
  "readPtr st = map_option (store st) (highestVersionDistro st)"

subsection \<open>A canned server\<close>

text \<open>
  An entry given by id, name and version, a client whose every request is answered with
  the same body, and an environment whose decoder yields the given entries, whose error
  classification changes nothing and whose comparison is the library's.
\<close>

definition image :: "string \<Rightarrow> string \<Rightarrow> string \<Rightarrow> DiskImage" where
  "image i n v = zeroDiskImage\<lparr>ID := i, Name := n, Version := v\<rparr>"

definition cannedClient :: "bytes \<Rightarrow> Client" where
  "cannedClient body = \<lparr>SendGetRequest = (\<lambda>url. Inr body)\<rparr>"

definition cannedEnv :: "DiskImage list \<Rightarrow> Env" where
  "cannedEnv imgs =
     \<lparr>jsonDecodeList = (\<lambda>resp. Inr imgs),
      jsonDecodeOne = (\<lambda>resp. Inr (case imgs of [] \<Rightarrow> None | d # ds \<Rightarrow> Some d)),
      decodeError = (\<lambda>err. err),
      semverCompare = semver_Compare,
      loopVar = PerIteration\<rparr>"

section \<open>Properties\<close>

lemma Contains_iff_sublist: "Contains s substr \<longleftrightarrow> sublist substr s"
  by (induction s) (auto simp: sublist_Cons_right)

lemma filterLoop_eq: "filterLoop acc xs = acc @ filter keepImage xs"
  by (induction xs arbitrary: acc) auto

subsection \<open>The catalog\<close>

lemma keepImage_iff: "keepImage e \<longleftrightarrow> \<not> excluded e"
  by (simp add: keepImage_def excluded_def Contains_iff_sublist)

lemma ListDiskImages_ok:
  assumes "SendGetRequest c (listURL includeCustom) = Inr resp"
    and "jsonDecodeList env resp = Inr diskImages"
  shows "ListDiskImages env c includeCustom = Inr (filter keepImage diskImages)"
  using assms by (simp add: ListDiskImages_def filterLoop_eq)

lemma ListDiskImages_InrD:
  assumes "ListDiskImages env c includeCustom = Inr out"
  shows "\<exists>resp diskImages. SendGetRequest c (listURL includeCustom) = Inr resp \<and>
           jsonDecodeList env resp = Inr diskImages \<and> out = filter keepImage diskImages"
  using assms by (auto simp: ListDiskImages_def filterLoop_eq split: sum.splits)

lemma canned_list:
  "ListDiskImages (cannedEnv imgs) (cannedClient body) includeCustom = Inr (filter keepImage imgs)"
  by (simp add: ListDiskImages_ok cannedEnv_def cannedClient_def)

lemma findLoop_foldl: "findLoop search st xs = foldl (findStep search) st xs"
  by (induction xs arbitrary: st) auto

lemma findLoop_snoc: "findLoop search st (xs @ [x]) = findStep search (findLoop search st xs) x"
  by (simp add: findLoop_foldl)

lemma findLoop_exact:
  "\<exists>e\<in>set xs. isExact search e \<Longrightarrow>
   exactMatch (findLoop search st xs) \<and>
   result (findLoop search st xs) = last (filter (isExact search) xs)"
proof (induction xs rule: rev_induct)
  case Nil
  then show ?case by simp
next
  case (snoc x xs)
  show ?case
  proof (cases "isExact search x")
    case True
    then have "Name x = search \<or> ID x = search"
      by (simp add: isExact_def)
    with True show ?thesis
      by (simp add: findLoop_snoc findStep_def)
  next
    case False
    with snoc.prems have "\<exists>e\<in>set xs. isExact search e" by auto
    with snoc.IH have "exactMatch (findLoop search st xs)"
      and "result (findLoop search st xs) = last (filter (isExact search) xs)" by auto
    moreover from False have "Name x \<noteq> search" "ID x \<noteq> search"
      by (simp_all add: isExact_def)
    ultimately show ?thesis
      using False by (simp add: findLoop_snoc findStep_def)
  qed
qed

lemma findLoop_no_exact:
  "\<forall>e\<in>set xs. \<not> isExact search e \<Longrightarrow> \<not> exactMatch st \<Longrightarrow>
   \<not> exactMatch (findLoop search st xs) \<and>
   partialMatchesCount (findLoop search st xs) =
     partialMatchesCount st + int (length (filter (isPartial search) xs)) \<and>
   result (findLoop search st xs) =
     (if filter (isPartial search) xs = [] then result st
      else last (filter (isPartial search) xs))"
proof (induction xs rule: rev_induct)
  case Nil
  then show ?case by simp
next
  case (snoc x xs)
  then have IH: "\<not> exactMatch (findLoop search st xs)"
    "partialMatchesCount (findLoop search st xs) =
       partialMatchesCount st + int (length (filter (isPartial search) xs))"
    "result (findLoop search st xs) =
       (if filter (isPartial search) xs = [] then result st
        else last (filter (isPartial search) xs))"
    by auto
  from snoc.prems have nx: "Name x \<noteq> search" "ID x \<noteq> search"
    by (auto simp: isExact_def)
  have px: "isPartial search x \<longleftrightarrow> Contains (Name x) search \<or> Contains (ID x) search"
    by (simp add: isPartial_def Contains_iff_sublist)
  show ?case
    using IH nx px
    by (simp add: findLoop_snoc findStep_def)
qed

lemma findLoop_init_no_exact:
  assumes "\<forall>e\<in>set xs. \<not> isExact search e"
  shows "\<not> exactMatch (findLoop search findInit xs)"
    and "partialMatchesCount (findLoop search findInit xs) =
           int (length (filter (isPartial search) xs))"
    and "filter (isPartial search) xs \<noteq> [] \<Longrightarrow>
           result (findLoop search findInit xs) = last (filter (isPartial search) xs)"
  using findLoop_no_exact [OF assms, of findInit] by (simp_all add: findInit_def)

text \<open>
  Claim C1. When the catalog that \<open>ListDiskImages\<close> returns has an entry whose name or id
  equals the search string, \<open>FindDiskImage\<close> returns the last such entry of the catalog,
  whatever else contains the search string.
\<close>
theorem FindDiskImage_exact_match:
  assumes "ListDiskImages env c [] = Inr catalog"
    and "\<exists>e\<in>set catalog. isExact search e"
  shows "FindDiskImage env c search = Inr (last (filter (isExact search) catalog))"
  using assms findLoop_exact [OF assms(2), of findInit]
  by (simp add: FindDiskImage_def findDecision_def)

theorem FindDiskImage_exact_match_witness:
  "FindDiskImage
     (cannedEnv [image ''a1'' ''ubuntu-focal-arm'' ''v20.4.0'', image ''a2'' ''ubuntu-focal'' ''v20.4.0'',
                 image ''a3'' ''ubuntu-jammy'' ''v22.4.0'', image ''ubuntu-focal'' ''mirror'' ''v1.0.0'',
                 image ''a5'' ''ubuntu-focal-k3s'' ''v1.0.0''])
     (cannedClient []) ''ubuntu-focal''
   = Inr (image ''ubuntu-focal'' ''mirror'' ''v1.0.0'')"
  using FindDiskImage_exact_match
    [of "cannedEnv [image ''a1'' ''ubuntu-focal-arm'' ''v20.4.0'', image ''a2'' ''ubuntu-focal'' ''v20.4.0'',
                 image ''a3'' ''ubuntu-jammy'' ''v22.4.0'', image ''ubuntu-focal'' ''mirror'' ''v1.0.0'',
                 image ''a5'' ''ubuntu-focal-k3s'' ''v1.0.0'']"
        "cannedClient []"
        "filter keepImage [image ''a1'' ''ubuntu-focal-arm'' ''v20.4.0'', image ''a2'' ''ubuntu-focal'' ''v20.4.0'',
                 image ''a3'' ''ubuntu-jammy'' ''v22.4.0'', image ''ubuntu-focal'' ''mirror'' ''v1.0.0'',
                 image ''a5'' ''ubuntu-focal-k3s'' ''v1.0.0'']"
        "''ubuntu-focal''"]
  by (simp add: canned_list keepImage_def isExact_def image_def)

text \<open>
  Claim C3. When no entry of the catalog equals the search string by name or id,
  \<open>FindDiskImage\<close> returns no entry and the multiple-matches error with the message
  naming the search string if more than one entry contains it, and the zero-matches error
  with the message naming the search string if no entry contains it.
\<close>
theorem FindDiskImage_no_exact_errors:
  assumes "ListDiskImages env c [] = Inr catalog"
    and "\<forall>e\<in>set catalog. \<not> isExact search e"
  shows "(1 < length (filter (isPartial search) catalog) \<longrightarrow>
            FindDiskImage env c search =
              Inl (wrap MultipleMatchesError
                (ErrorString (''unable to find '' @ search @ '' because there were multiple matches'')))) \<and>
         (filter (isPartial search) catalog = [] \<longrightarrow>
            FindDiskImage env c search =
              Inl (wrap ZeroMatchesError
                (ErrorString (''unable to find '' @ search @ '', zero matches''))))"
  using assms(1) findLoop_init_no_exact(1,2) [OF assms(2)]
  by (simp add: FindDiskImage_def findDecision_def multipleMatchesMessage_def
      zeroMatchesMessage_def)

theorem FindDiskImage_no_exact_errors_witness:
  "FindDiskImage (cannedEnv [image ''b1'' ''debian-10'' ''v10.0.0'', image ''b2'' ''debian-11'' ''v11.0.0''])
     (cannedClient []) ''debian''
   = Inl (wrap MultipleMatchesError
       (ErrorString ''unable to find debian because there were multiple matches'')) \<and>
   FindDiskImage (cannedEnv [image ''b1'' ''debian-10'' ''v10.0.0'', image ''b2'' ''debian-11'' ''v11.0.0''])
     (cannedClient []) ''freebsd''
   = Inl (wrap ZeroMatchesError (ErrorString ''unable to find freebsd, zero matches''))"
  using FindDiskImage_no_exact_errors
    [of "cannedEnv [image ''b1'' ''debian-10'' ''v10.0.0'', image ''b2'' ''debian-11'' ''v11.0.0'']"
        "cannedClient []"
        "filter keepImage [image ''b1'' ''debian-10'' ''v10.0.0'', image ''b2'' ''debian-11'' ''v11.0.0'']"
        "''debian''"]
    FindDiskImage_no_exact_errors
    [of "cannedEnv [image ''b1'' ''debian-10'' ''v10.0.0'', image ''b2'' ''debian-11'' ''v11.0.0'']"
        "cannedClient []"
        "filter keepImage [image ''b1'' ''debian-10'' ''v10.0.0'', image ''b2'' ''debian-11'' ''v11.0.0'']"
        "''freebsd''"]
  by (simp add: canned_list keepImage_def isExact_def isPartial_def image_def
      Contains_iff_sublist [symmetric])

text \<open>
  Claim C5. When no entry of the catalog equals the search string by name or id and
  exactly one entry contains it in its name or id, \<open>FindDiskImage\<close> returns that entry.
\<close>
theorem FindDiskImage_single_partial:
  assumes "ListDiskImages env c [] = Inr catalog"
    and "\<forall>e\<in>set catalog. \<not> isExact search e"
    and "filter (isPartial search) catalog = [e]"
  shows "FindDiskImage env c search = Inr e"
  using assms(1,3) findLoop_init_no_exact [OF assms(2)]
  by (simp add: FindDiskImage_def findDecision_def)

theorem FindDiskImage_single_partial_witness:
  "FindDiskImage
     (cannedEnv [image ''c1'' ''debian-10'' ''v10.0.0'', image ''c2'' ''alpine-3.18'' ''v3.18.0'',
                 image ''c3'' ''ubuntu-jammy'' ''v22.4.0''])
     (cannedClient []) ''alpine''
   = Inr (image ''c2'' ''alpine-3.18'' ''v3.18.0'')"
  using FindDiskImage_single_partial
    [of "cannedEnv [image ''c1'' ''debian-10'' ''v10.0.0'', image ''c2'' ''alpine-3.18'' ''v3.18.0'',
                 image ''c3'' ''ubuntu-jammy'' ''v22.4.0'']"
        "cannedClient []"
        "filter keepImage [image ''c1'' ''debian-10'' ''v10.0.0'', image ''c2'' ''alpine-3.18'' ''v3.18.0'',
                 image ''c3'' ''ubuntu-jammy'' ''v22.4.0'']"
        "''alpine''" "image ''c2'' ''alpine-3.18'' ''v3.18.0''"]
  by (simp add: canned_list keepImage_def isExact_def isPartial_def image_def
      Contains_iff_sublist [symmetric])

text \<open>
  Claim C9. On a catalog of at least two entries, all with a non-empty name and id, the
  empty search string fails with the multiple-matches error: it occurs in every name and
  equals none.
\<close>
theorem FindDiskImage_empty_search:
  assumes "ListDiskImages env c [] = Inr catalog"
    and "2 \<le> length catalog"
    and "\<forall>e\<in>set catalog. Name e \<noteq> [] \<and> ID e \<noteq> []"
  shows "FindDiskImage env c [] =
           Inl (wrap MultipleMatchesError
             (ErrorString ''unable to find  because there were multiple matches''))"
proof -
  from assms(3) have ne: "\<forall>e\<in>set catalog. \<not> isExact [] e"
    by (auto simp: isExact_def)
  have "filter (isPartial []) catalog = catalog"
    by (simp add: isPartial_def)
  with assms(2) have "1 < int (length (filter (isPartial []) catalog))"
    by simp
  with assms(1) findLoop_init_no_exact(1,2) [OF ne] show ?thesis
    by (simp add: FindDiskImage_def findDecision_def multipleMatchesMessage_def)
qed

theorem FindDiskImage_empty_search_witness:
  "FindDiskImage (cannedEnv [image ''d1'' ''debian-10'' ''v10.0.0'', image ''d2'' ''alpine-3.18'' ''v3.18.0''])
     (cannedClient []) []
   = Inl (wrap MultipleMatchesError
       (ErrorString ''unable to find  because there were multiple matches''))"
  using FindDiskImage_empty_search
    [of "cannedEnv [image ''d1'' ''debian-10'' ''v10.0.0'', image ''d2'' ''alpine-3.18'' ''v3.18.0'']"
        "cannedClient []"
        "filter keepImage [image ''d1'' ''debian-10'' ''v10.0.0'', image ''d2'' ''alpine-3.18'' ''v3.18.0'']"]
  by (simp add: canned_list keepImage_def image_def)

text \<open>
  Claim C2. When the transport and the decoder succeed, \<open>ListDiskImages\<close> returns the
  decoded entries whose name contains neither \<open>k3s\<close> nor \<open>talos\<close>, in their order, whatever
  the \<open>includeCustom\<close> arguments; no returned entry has such a name.
\<close>
theorem ListDiskImages_excludes:
  assumes "SendGetRequest c (listURL includeCustom) = Inr resp"
    and "jsonDecodeList env resp = Inr diskImages"
  shows "ListDiskImages env c includeCustom = Inr (filter (\<lambda>e. \<not> excluded e) diskImages) \<and>
         (\<forall>e\<in>set (filter (\<lambda>e. \<not> excluded e) diskImages).
            \<not> sublist ''k3s'' (Name e) \<and> \<not> sublist ''talos'' (Name e))"
proof -
  have "filter keepImage diskImages = filter (\<lambda>e. \<not> excluded e) diskImages"
    by (rule filter_cong) (simp_all add: keepImage_iff)
  with ListDiskImages_ok [OF assms] show ?thesis
    by (simp add: excluded_def)
qed

theorem ListDiskImages_excludes_witness:
  "ListDiskImages (cannedEnv [image ''e1'' ''k3s-v1.2'' ''v1.2.0'', image ''e2'' ''ubuntu-20.04'' ''v20.4.0''])
     (cannedClient []) [True]
   = Inr [image ''e2'' ''ubuntu-20.04'' ''v20.4.0''] \<and>
   ListDiskImages (cannedEnv [image ''e1'' ''k3s-v1.2'' ''v1.2.0'', image ''e2'' ''ubuntu-20.04'' ''v20.4.0''])
     (cannedClient []) []
   = Inr [image ''e2'' ''ubuntu-20.04'' ''v20.4.0'']"
  using ListDiskImages_excludes
    [of "cannedClient []" "[True]" "[]"
        "cannedEnv [image ''e1'' ''k3s-v1.2'' ''v1.2.0'', image ''e2'' ''ubuntu-20.04'' ''v20.4.0'']"
        "[image ''e1'' ''k3s-v1.2'' ''v1.2.0'', image ''e2'' ''ubuntu-20.04'' ''v20.4.0'']"]
    ListDiskImages_excludes
    [of "cannedClient []" "[]" "[]"
        "cannedEnv [image ''e1'' ''k3s-v1.2'' ''v1.2.0'', image ''e2'' ''ubuntu-20.04'' ''v20.4.0'']"
        "[image ''e1'' ''k3s-v1.2'' ''v1.2.0'', image ''e2'' ''ubuntu-20.04'' ''v20.4.0'']"]
  by (simp add: cannedEnv_def cannedClient_def excluded_def image_def
      Contains_iff_sublist [symmetric])

lemma byNameLoop_first:
  "\<forall>e\<in>set pre. Name e \<noteq> name \<Longrightarrow> Name d = name \<Longrightarrow>
   byNameLoop name (pre @ d # post) = Inr d"
  by (induction pre) auto

lemma byNameLoop_none:
  "\<forall>e\<in>set xs. Name e \<noteq> name \<Longrightarrow> byNameLoop name xs = Inl (ErrorString ''diskimage not found'')"
  by (induction xs) auto

text \<open>
  Claim C6. \<open>GetDiskImageByName\<close> returns the first entry of the catalog whose name equals
  the given name, and fails with the error \<open>diskimage not found\<close> when no name equals it.
\<close>

theorem GetDiskImageByName_first_match:
  assumes "ListDiskImages env c [] = Inr catalog"
  shows "(\<forall>pre d post. catalog = pre @ d # post \<and> (\<forall>e\<in>set pre. Name e \<noteq> name) \<and> Name d = name
            \<longrightarrow> GetDiskImageByName env c name = Inr d) \<and>
         ((\<forall>e\<in>set catalog. Name e \<noteq> name)
            \<longrightarrow> GetDiskImageByName env c name = Inl (ErrorString ''diskimage not found''))"
  using assms by (simp add: GetDiskImageByName_def byNameLoop_first byNameLoop_none)

theorem GetDiskImageByName_first_match_witness:
  "GetDiskImageByName
     (cannedEnv [image ''f1'' ''debian-10'' ''v10.0.0'', image ''f2'' ''alpine'' ''v3.18.0'',
                 image ''f3'' ''alpine'' ''v3.19.0''])
     (cannedClient []) ''alpine''
   = Inr (image ''f2'' ''alpine'' ''v3.18.0'') \<and>
   GetDiskImageByName
     (cannedEnv [image ''f1'' ''debian-10'' ''v10.0.0'', image ''f2'' ''alpine'' ''v3.18.0'',
                 image ''f3'' ''alpine'' ''v3.19.0''])
     (cannedClient []) ''alp''
   = Inl (ErrorString ''diskimage not found'')"
proof -
  let ?imgs = "[image ''f1'' ''debian-10'' ''v10.0.0'', image ''f2'' ''alpine'' ''v3.18.0'',
                 image ''f3'' ''alpine'' ''v3.19.0'']"
  have l: "ListDiskImages (cannedEnv ?imgs) (cannedClient []) [] = Inr ?imgs"
    by (simp add: canned_list keepImage_def image_def)
  have "?imgs = [image ''f1'' ''debian-10'' ''v10.0.0''] @ image ''f2'' ''alpine'' ''v3.18.0'' #
          [image ''f3'' ''alpine'' ''v3.19.0'']"
    by simp
  moreover have "\<forall>e\<in>set [image ''f1'' ''debian-10'' ''v10.0.0'']. Name e \<noteq> ''alpine''"
    by (simp add: image_def)
  moreover have "Name (image ''f2'' ''alpine'' ''v3.18.0'') = ''alpine''"
    by (simp add: image_def)
  ultimately have "GetDiskImageByName (cannedEnv ?imgs) (cannedClient []) ''alpine''
      = Inr (image ''f2'' ''alpine'' ''v3.18.0'')"
    using GetDiskImageByName_first_match [OF l, of "''alpine''"] by blast
  moreover have "\<forall>e\<in>set ?imgs. Name e \<noteq> ''alp''"
    by (simp add: image_def)
  then have "GetDiskImageByName (cannedEnv ?imgs) (cannedClient []) ''alp''
      = Inl (ErrorString ''diskimage not found'')"
    using GetDiskImageByName_first_match [OF l, of "''alp''"] by blast
  ultimately show ?thesis by simp
qed

lemma distroLoop_highest_None:
  "\<forall>e\<in>set xs. \<not> nameHas name e \<Longrightarrow> highestVersionDistro st = None \<Longrightarrow>
   highestVersionDistro (distroLoop env name i st xs) = None"
  by (induction xs arbitrary: i st)
    (auto simp: distroStep_def Let_def nameHas_def Contains_iff_sublist)

text \<open>
  Claim C7. When no entry's name contains the given string, \<open>GetMostRecentDistro\<close> returns
  no entry and an error whose message starts with that string. This holds however loop
  variables are scoped.
\<close>
theorem GetMostRecentDistro_not_found:
  assumes "ListDiskImages env c [] = Inr catalog"
    and "\<forall>e\<in>set catalog. \<not> nameHas name e"
  shows "GetMostRecentDistro env c name = Inl (ErrorString (name @ '' image not found''))"
  using assms(1) distroLoop_highest_None [OF assms(2), of distroInit env 0]
  by (simp add: GetMostRecentDistro_def distroInit_def)

theorem GetMostRecentDistro_not_found_witness:
  "GetMostRecentDistro (cannedEnv [image ''g1'' ''debian-10'' ''v10.0.0'', image ''g2'' ''alpine'' ''v3.18.0''])
     (cannedClient []) ''nonexistent''
   = Inl (ErrorString ''nonexistent image not found'')"
  using GetMostRecentDistro_not_found
    [of "cannedEnv [image ''g1'' ''debian-10'' ''v10.0.0'', image ''g2'' ''alpine'' ''v3.18.0'']"
        "cannedClient []"
        "filter keepImage [image ''g1'' ''debian-10'' ''v10.0.0'', image ''g2'' ''alpine'' ''v3.18.0'']"
        "''nonexistent''"]
  by (simp add: canned_list keepImage_def nameHas_def image_def Contains_iff_sublist [symmetric])

text \<open>
  With a variable per iteration the pointer taken in iteration \<open>i\<close> is never written
  again, and the scan over the store is the selection on values.
\<close>


lemma distroStep_PerIteration:
  assumes "loopVar env = PerIteration"
    and "\<forall>p. highestVersionDistro st = Some p \<longrightarrow> p < i"
  shows "readPtr (distroStep env name i st v) =
           (if nameHas name v then pickStep (semverCompare env) (readPtr st) v else readPtr st)"
    and "\<forall>p. highestVersionDistro (distroStep env name i st v) = Some p \<longrightarrow> p < Suc i"
  using assms
  by (auto simp: distroStep_def Let_def readPtr_def loopVarAddr_def pickStep_def nameHas_def
      Contains_iff_sublist split: option.splits)

lemma distroLoop_PerIteration:
  assumes "loopVar env = PerIteration"
  shows "\<forall>p. highestVersionDistro st = Some p \<longrightarrow> p < i \<Longrightarrow>
         readPtr (distroLoop env name i st xs) =
           pickLoop (semverCompare env) (readPtr st) (filter (nameHas name) xs)"
proof (induction xs arbitrary: i st)
  case Nil
  then show ?case by simp
next
  case (Cons v xs)
  from distroStep_PerIteration [OF assms Cons.prems, of name v]
  have r: "readPtr (distroStep env name i st v) =
           (if nameHas name v then pickStep (semverCompare env) (readPtr st) v else readPtr st)"
    and b: "\<forall>p. highestVersionDistro (distroStep env name i st v) = Some p \<longrightarrow> p < Suc i"
    by auto
  from Cons.IH [OF b] r show ?case by simp
qed

lemma GetMostRecentDistro_PerIteration:
  assumes "loopVar env = PerIteration" and "ListDiskImages env c [] = Inr catalog"
  shows "GetMostRecentDistro env c name =
           (case pickLoop (semverCompare env) None (filter (nameHas name) catalog) of
              None \<Rightarrow> Inl (ErrorString (name @ '' image not found''))
            | Some r \<Rightarrow> Inr r)"
proof -
  have "readPtr (distroLoop env name 0 distroInit catalog) =
          pickLoop (semverCompare env) None (filter (nameHas name) catalog)"
    using distroLoop_PerIteration [OF assms(1), of distroInit 0 name catalog]
    by (simp add: distroInit_def readPtr_def)
  then have "pickLoop (semverCompare env) None (filter (nameHas name) catalog) =
      map_option (store (distroLoop env name 0 distroInit catalog))
        (highestVersionDistro (distroLoop env name 0 distroInit catalog))"
    by (simp add: readPtr_def)
  with assms(2) show ?thesis
    by (cases "highestVersionDistro (distroLoop env name 0 distroInit catalog)")
      (simp_all add: GetMostRecentDistro_def)
qed




subsection \<open>The library's comparison orders the versions\<close>

lemma orderSign_pair:
  "(if orderSign a b \<noteq> 0 then orderSign a b else orderSign c d) = orderSign (a, c) (b, d)"
  by (auto simp: orderSign_def)

lemma orderSign_option:
  "orderSign (Some a) (Some b) = orderSign a b"
  "orderSign None (Some b) = - 1"
  "orderSign (Some a) None = 1"
  "orderSign (None :: 'a::linorder option) None = 0"
  by (simp_all add: orderSign_def)

lemma orderSign_flag:
  "orderSign (False, a) (True, b) = - 1"
  "orderSign (True, a) (False, b) = 1"
  "orderSign (False, a) (False, b) = orderSign a b"
  by (auto simp: orderSign_def)

lemma orderSign_ne: "a \<noteq> b \<Longrightarrow> orderSign a b = (if a < b then - 1 else 1)"
  by (simp add: orderSign_def)

lemma orderSign_refl: "orderSign a a = 0"
  by (simp add: orderSign_def)

lemma splitDots_nonempty: "splitDots s \<noteq> []"
  by (induction s) (auto split: list.splits)

lemma splitDots_hd: "hd (splitDots s) = takeWhile (\<lambda>c. c \<noteq> CHR ''.'') s"
  by (induction s) (auto split: list.splits simp: splitDots_nonempty)

lemma splitDots_tl:
  "tl (splitDots s) =
     (case dropWhile (\<lambda>c. c \<noteq> CHR ''.'') s of [] \<Rightarrow> [] | d # r \<Rightarrow> splitDots r)"
proof (induction s)
  case Nil
  then show ?case by simp
next
  case (Cons c s)
  show ?case
  proof (cases "c = CHR ''.''")
    case True
    then show ?thesis by simp
  next
    case False
    obtain i rest where sp: "splitDots s = i # rest"
      using splitDots_nonempty [of s] by (cases "splitDots s") auto
    with Cons.IH have "rest =
        (case dropWhile (\<lambda>c. c \<noteq> CHR ''.'') s of [] \<Rightarrow> [] | d # r \<Rightarrow> splitDots r)"
      by simp
    with False sp show ?thesis by simp
  qed
qed

lemma splitDots_inj: "splitDots s = splitDots t \<Longrightarrow> s = t"
proof (induction s arbitrary: t)
  case Nil
  then show ?case
    by (cases t) (auto split: list.splits if_splits simp: splitDots_nonempty)
next
  case (Cons c s)
  then show ?case
  proof (cases t)
    case Nil
    with Cons.prems show ?thesis
      by (auto split: list.splits if_splits simp: splitDots_nonempty)
  next
    case (Cons d t')
    with Cons.prems Cons.IH [of t'] show ?thesis
      by (auto split: list.splits if_splits simp: splitDots_nonempty)
  qed
qed

lemma identKey_inj: "identKey i = identKey j \<Longrightarrow> i = j"
  by (auto simp: identKey_def split: if_splits)

lemma compareIdent_key:
  "dx \<noteq> dy \<Longrightarrow> compareIdent dx dy = (if identKey dx < identKey dy then - 1 else 1)"
  by (auto simp: compareIdent_def identKey_def)

lemma compareInt_key: "compareInt x y = orderSign (intKey x) (intKey y)"
  by (auto simp: compareInt_def intKey_def orderSign_def)

lemma prereleaseCompareLoop_key:
  "x \<noteq> [] \<Longrightarrow> y \<noteq> [] \<Longrightarrow> splitDots (tl x) \<noteq> splitDots (tl y) \<Longrightarrow>
   prereleaseCompareLoop x y =
     (if map identKey (splitDots (tl x)) < map identKey (splitDots (tl y)) then - 1 else 1)"
proof (induction x y rule: prereleaseCompareLoop.induct)
  case (1 x y)
  let ?dx = "takeWhile (\<lambda>c. c \<noteq> CHR ''.'') (tl x)"
  let ?dy = "takeWhile (\<lambda>c. c \<noteq> CHR ''.'') (tl y)"
  let ?x2 = "dropWhile (\<lambda>c. c \<noteq> CHR ''.'') (tl x)"
  let ?y2 = "dropWhile (\<lambda>c. c \<noteq> CHR ''.'') (tl y)"
  obtain tx where sx: "splitDots (tl x) = ?dx # tx" and tx: "tx = tl (splitDots (tl x))"
    using splitDots_nonempty [of "tl x"] splitDots_hd [of "tl x"]
    by (cases "splitDots (tl x)") auto
  obtain ty where sy: "splitDots (tl y) = ?dy # ty" and ty: "ty = tl (splitDots (tl y))"
    using splitDots_nonempty [of "tl y"] splitDots_hd [of "tl y"]
    by (cases "splitDots (tl y)") auto
  have unf: "prereleaseCompareLoop x y =
      (if ?dx \<noteq> ?dy then compareIdent ?dx ?dy else prereleaseCompareLoop ?x2 ?y2)"
    using "1.prems"(1,2) by (subst prereleaseCompareLoop.simps) (simp add: nextIdent_def)
  show ?case
  proof (cases "?dx = ?dy")
    case False
    then have "identKey ?dx \<noteq> identKey ?dy"
      using identKey_inj by blast
    with False show ?thesis
      unfolding unf sx sy by (simp add: compareIdent_key)
  next
    case True
    with "1.prems"(3) sx sy have tne: "tx \<noteq> ty" by simp
    show ?thesis
    proof (cases "?x2 = [] \<or> ?y2 = []")
      case True
      note e = this
      show ?thesis
      proof (cases "?x2 = []")
        case True
        have "tx = []" unfolding tx splitDots_tl True by simp
        with tne have "ty \<noteq> []" by simp
        with True \<open>tx = []\<close> \<open>?dx = ?dy\<close> show ?thesis
          unfolding unf sx sy
          by (subst prereleaseCompareLoop.simps) (cases ty; simp)
      next
        case False
        with e have y2: "?y2 = []" by blast
        have "ty = []" unfolding ty splitDots_tl y2 by simp
        with tne have "tx \<noteq> []" by simp
        with False y2 \<open>ty = []\<close> \<open>?dx = ?dy\<close> show ?thesis
          unfolding unf sx sy
          by (subst prereleaseCompareLoop.simps) (cases tx; simp)
      qed
    next
      case False
      then obtain d r d' r' where x2: "?x2 = d # r" and y2: "?y2 = d' # r'"
        by (cases ?x2; cases ?y2) auto
      have txr: "tx = splitDots (tl ?x2)"
        unfolding tx splitDots_tl x2 by simp
      have tyr: "ty = splitDots (tl ?y2)"
        unfolding ty splitDots_tl y2 by simp
      have "prereleaseCompareLoop ?x2 ?y2 =
          (if map identKey (splitDots (tl ?x2)) < map identKey (splitDots (tl ?y2)) then - 1 else 1)"
        using "1.IH" [unfolded nextIdent_def fst_conv snd_conv] "1.prems"(1,2) True x2 y2 tne txr tyr
        by simp
      with True show ?thesis
        unfolding unf sx sy txr tyr by simp
    qed
  qed
qed

lemma prereleaseLoop_prefix:
  "prereleaseLoop seen cur rest = Some (t, r) \<Longrightarrow> prefix seen t"
proof (induction seen cur rest rule: prereleaseLoop.induct)
  case (1 seen cur)
  then show ?case by (simp split: if_splits)
next
  case (2 seen cur c rest)
  then show ?case
    by (auto split: if_splits dest: append_prefixD)
qed

lemma parsePrerelease_shape:
  assumes "parsePrerelease v = Some (t, r)"
  shows "t \<noteq> [] \<and> hd t = CHR ''-''"
proof -
  from assms have v: "v \<noteq> []" "hd v = CHR ''-''"
    and l: "prereleaseLoop [hd v] [] (tl v) = Some (t, r)"
    by (auto simp: parsePrerelease_def split: if_splits)
  from prereleaseLoop_prefix [OF l] obtain s where "t = [hd v] @ s"
    by (auto simp: prefix_def)
  with v show ?thesis by simp
qed

lemma parseSuffix_shape:
  assumes "parseSuffix ma mi pa v = Some p"
  shows "prereleaseShape (prerelease p)"
proof -
  from assms have "prerelease p = [] \<or> (\<exists>r. parsePrerelease v = Some (prerelease p, r))"
    by (auto simp: parseSuffix_def split: if_splits option.splits)
  then show ?thesis
    using parsePrerelease_shape by (auto simp: prereleaseShape_def)
qed

lemma parse_shape:
  assumes "parse v = Some p"
  shows "prereleaseShape (prerelease p)"
proof -
  from assms have "prerelease p = [] \<or> (\<exists>ma mi pa r. parseSuffix ma mi pa r = Some p)"
    by (auto simp: parse_def split: if_splits option.splits)
  then show ?thesis
  proof (elim disjE exE)
    assume "prerelease p = []"
    then show ?thesis by (simp add: prereleaseShape_def)
  next
    fix ma mi pa r assume "parseSuffix ma mi pa r = Some p"
    then show ?thesis by (rule parseSuffix_shape)
  qed
qed

lemma prereleaseKey_Nil: "prereleaseKey [] = (True, [])"
  by (simp add: prereleaseKey_def)

lemma prereleaseKey_Cons:
  "prereleaseKey (c # x) = (False, map identKey (splitDots x))"
  by (simp add: prereleaseKey_def)

lemma comparePrerelease_key:
  assumes "prereleaseShape x" and "prereleaseShape y"
  shows "comparePrerelease x y = orderSign (prereleaseKey x) (prereleaseKey y)"
proof (cases x)
  case Nil
  note x = this
  show ?thesis
  proof (cases y)
    case Nil
    with x show ?thesis
      by (simp add: comparePrerelease_def orderSign_refl)
  next
    case (Cons d y')
    have "comparePrerelease [] (d # y') = 1"
      by (simp add: comparePrerelease_def)
    then show ?thesis
      unfolding x Cons prereleaseKey_Nil prereleaseKey_Cons orderSign_flag .
  qed
next
  case (Cons c x')
  note x = this
  show ?thesis
  proof (cases y)
    case Nil
    have "comparePrerelease (c # x') [] = - 1"
      by (simp add: comparePrerelease_def)
    then show ?thesis
      unfolding x Nil prereleaseKey_Nil prereleaseKey_Cons orderSign_flag .
  next
    case (Cons d y')
    note y = this
    from assms x y have c: "c = CHR ''-''" and d: "d = CHR ''-''"
      by (simp_all add: prereleaseShape_def)
    show ?thesis
    proof (cases "x' = y'")
      case True
      with c d show ?thesis
        unfolding x y by (simp add: comparePrerelease_def orderSign_refl)
    next
      case False
      then have sp: "splitDots x' \<noteq> splitDots y'"
        using splitDots_inj [of x' y'] by blast
      have "inj identKey"
        by (rule injI) (rule identKey_inj)
      with sp have k: "map identKey (splitDots x') \<noteq> map identKey (splitDots y')"
        by (simp add: inj_map_eq_map)
      have "prereleaseCompareLoop (c # x') (d # y') =
          (if map identKey (splitDots (tl (c # x'))) < map identKey (splitDots (tl (d # y')))
           then - 1 else 1)"
        by (rule prereleaseCompareLoop_key) (use sp in simp_all)
      then have "prereleaseCompareLoop (c # x') (d # y') =
          orderSign (map identKey (splitDots x')) (map identKey (splitDots y'))"
        unfolding orderSign_ne [OF k] by (simp only: list.sel)
      moreover have "comparePrerelease (c # x') (d # y') = prereleaseCompareLoop (c # x') (d # y')"
        using False by (simp add: comparePrerelease_def)
      ultimately show ?thesis
        unfolding x y prereleaseKey_Cons orderSign_flag by simp
    qed
  qed
qed

lemma semver_Compare_key: "semver_Compare v w = orderSign (semverKey v) (semverKey w)"
proof (cases "parse v")
  case None
  then show ?thesis
    by (cases "parse w") (simp_all add: semver_Compare_def semverKey_def orderSign_option)
next
  case (Some pv)
  note pv = this
  show ?thesis
  proof (cases "parse w")
    case None
    with pv show ?thesis
      by (simp add: semver_Compare_def semverKey_def orderSign_option)
  next
    case (Some pw)
    from parse_shape [OF pv] parse_shape [OF Some]
    have cp: "comparePrerelease (prerelease pv) (prerelease pw) =
        orderSign (prereleaseKey (prerelease pv)) (prereleaseKey (prerelease pw))"
      by (rule comparePrerelease_key)
    have "semver_Compare v w =
        (if compareInt (major pv) (major pw) \<noteq> 0 then compareInt (major pv) (major pw)
         else if compareInt (minor pv) (minor pw) \<noteq> 0 then compareInt (minor pv) (minor pw)
         else if compareInt (patch pv) (patch pw) \<noteq> 0 then compareInt (patch pv) (patch pw)
         else comparePrerelease (prerelease pv) (prerelease pw))"
      by (simp add: semver_Compare_def pv Some)
    also have "\<dots> =
        orderSign
          (intKey (major pv), intKey (minor pv), intKey (patch pv), prereleaseKey (prerelease pv))
          (intKey (major pw), intKey (minor pw), intKey (patch pw), prereleaseKey (prerelease pw))"
      by (simp only: cp compareInt_key orderSign_pair)
    also have "\<dots> = orderSign (semverKey v) (semverKey w)"
      by (simp add: semverKey_def pv Some orderSign_option)
    finally show ?thesis .
  qed
qed

lemma orderSign_neg: "(orderSign a b < 0) = (a < b)"
  by (simp add: orderSign_def)

lemma orderSign_pos: "(0 < orderSign a b) = (b < a)"
  by (auto simp: orderSign_def)

lemma orderSign_le: "(orderSign a b \<le> 0) = (a \<le> b)"
  by (auto simp: orderSign_def)

lemma semver_Compare_versionOrder: "versionOrder semver_Compare es"
  unfolding versionOrder_def semver_Compare_key orderSign_neg orderSign_pos orderSign_le
proof (intro conjI ballI impI)
  fix a b c :: DiskImage
  assume "semverKey (Version a) \<le> semverKey (Version b) \<and>
    semverKey (Version b) \<le> semverKey (Version c)"
  then show "semverKey (Version a) \<le> semverKey (Version c)"
    by (elim conjE) (rule order_trans)
qed (rule refl)

subsection \<open>The highest version\<close>

lemma pickLoop_foldl: "pickLoop cmp best es = foldl (pickStep cmp) best es"
  by (induction es arbitrary: best) auto

lemma pickLoop_snoc: "pickLoop cmp best (es @ [e]) = pickStep cmp (pickLoop cmp best es) e"
  by (simp add: pickLoop_foldl)

lemma versionOrder_subset:
  assumes "versionOrder cmp es" and "set es' \<subseteq> set es"
  shows "versionOrder cmp es'"
  unfolding versionOrder_def
proof (intro conjI ballI impI)
  fix a b assume "a \<in> set es'" "b \<in> set es'"
  with assms(2) have "a \<in> set es" "b \<in> set es" by auto
  with assms(1) show "(cmp (Version a) (Version b) < 0) = (0 < cmp (Version b) (Version a))"
    unfolding versionOrder_def by blast
next
  fix a b c assume "a \<in> set es'" "b \<in> set es'" "c \<in> set es'"
    and le: "cmp (Version a) (Version b) \<le> 0 \<and> cmp (Version b) (Version c) \<le> 0"
  with assms(2) have "a \<in> set es" "b \<in> set es" "c \<in> set es" by auto
  with assms(1) le show "cmp (Version a) (Version c) \<le> 0"
    unfolding versionOrder_def by blast
qed

lemma versionOrder_butlast: "versionOrder cmp (es @ [e]) \<Longrightarrow> versionOrder cmp es"
  by (rule versionOrder_subset) auto

lemma versionOrder_flip:
  assumes "versionOrder cmp es" and "a \<in> set es" "b \<in> set es"
    and "\<not> cmp (Version a) (Version b) < 0"
  shows "cmp (Version b) (Version a) \<le> 0"
proof -
  from assms(1-3) have "(cmp (Version b) (Version a) < 0) = (0 < cmp (Version a) (Version b))"
    and "(cmp (Version a) (Version b) < 0) = (0 < cmp (Version b) (Version a))"
    unfolding versionOrder_def by blast+
  with assms(4) show ?thesis by linarith
qed

lemma versionOrder_trans:
  assumes "versionOrder cmp es" and "a \<in> set es" "b \<in> set es" "x \<in> set es"
    and "cmp (Version a) (Version b) \<le> 0" and "cmp (Version b) (Version x) \<le> 0"
  shows "cmp (Version a) (Version x) \<le> 0"
  using assms unfolding versionOrder_def by blast

lemma versionOrder_less_trans:
  assumes "versionOrder cmp es" and "a \<in> set es" "b \<in> set es" "x \<in> set es"
    and "cmp (Version a) (Version b) \<le> 0" and "cmp (Version b) (Version x) < 0"
  shows "cmp (Version a) (Version x) < 0"
proof (rule ccontr)
  assume "\<not> cmp (Version a) (Version x) < 0"
  then have "cmp (Version x) (Version a) \<le> 0"
    by (rule versionOrder_flip [OF assms(1,2,4)])
  then have "cmp (Version x) (Version b) \<le> 0"
    using assms(5) by (rule versionOrder_trans [OF assms(1,4,2,3)])
  moreover from assms(1,3,4) have
    "(cmp (Version b) (Version x) < 0) = (0 < cmp (Version x) (Version b))"
    unfolding versionOrder_def by blast
  ultimately show False using assms(6) by simp
qed

lemma pickLoop_greatest:
  "es \<noteq> [] \<Longrightarrow> versionOrder cmp es \<Longrightarrow>
   \<exists>pre r post. es = pre @ r # post \<and> pickLoop cmp None es = Some r \<and>
     (\<forall>e\<in>set pre. cmp (Version e) (Version r) < 0) \<and>
     (\<forall>e\<in>set post. cmp (Version e) (Version r) \<le> 0)"
proof (induction es rule: rev_induct)
  case Nil
  then show ?case by simp
next
  case (snoc x es)
  show ?case
  proof (cases "es = []")
    case True
    have "pickLoop cmp None [x] = Some x"
      by (simp add: pickStep_def)
    with True show ?thesis
      by (intro exI [of _ "[]"] exI [of _ x]) simp
  next
    case False
    from snoc.prems(2) have vo: "versionOrder cmp es"
      by (rule versionOrder_butlast)
    from snoc.IH [OF False vo] obtain pre r post where
      es: "es = pre @ r # post" and pick: "pickLoop cmp None es = Some r"
      and pre: "\<forall>e\<in>set pre. cmp (Version e) (Version r) < 0"
      and post: "\<forall>e\<in>set post. cmp (Version e) (Version r) \<le> 0"
      by blast
    have mr: "r \<in> set (es @ [x])" and mx: "x \<in> set (es @ [x])"
      using es by auto
    show ?thesis
    proof (cases "cmp (Version r) (Version x) < 0")
      case True
      have rr: "cmp (Version r) (Version r) \<le> 0"
      proof -
        from snoc.prems(2) mr have
          "(cmp (Version r) (Version r) < 0) = (0 < cmp (Version r) (Version r))"
          unfolding versionOrder_def by blast
        then show ?thesis by linarith
      qed
      have all: "\<forall>e\<in>set es. cmp (Version e) (Version x) < 0"
      proof
        fix e assume e: "e \<in> set es"
        with es have "e \<in> set pre \<or> e = r \<or> e \<in> set post" by auto
        with pre post rr have le: "cmp (Version e) (Version r) \<le> 0"
          by (auto intro: less_imp_le)
        from e have "e \<in> set (es @ [x])" by simp
        from versionOrder_less_trans [OF snoc.prems(2) this mr mx le True]
        show "cmp (Version e) (Version x) < 0" .
      qed
      have "pickLoop cmp None (es @ [x]) = Some x"
        using pick True by (simp add: pickLoop_snoc pickStep_def)
      with all show ?thesis
        by (intro exI [of _ es] exI [of _ x] exI [of _ "[]"]) simp
    next
      case False
      then have "cmp (Version x) (Version r) \<le> 0"
        by (rule versionOrder_flip [OF snoc.prems(2) mr mx])
      with post have p': "\<forall>e\<in>set (post @ [x]). cmp (Version e) (Version r) \<le> 0"
        by auto
      have "pickLoop cmp None (es @ [x]) = Some r"
        using pick False by (simp add: pickLoop_snoc pickStep_def)
      moreover have "es @ [x] = pre @ r # (post @ [x])"
        using es by simp
      ultimately show ?thesis
        using p' pre by blast
    qed
  qed
qed

text \<open>
  With a loop variable per iteration and a comparison that orders the versions of the
  matching entries, \<open>GetMostRecentDistro\<close> returns a matching entry \<open>r\<close> such that every
  matching entry before it in the catalog has a strictly lower version and every matching
  entry after it has a version that is not greater: the greatest version, and the earliest
  entry among those that have it.
\<close>

lemma GetMostRecentDistro_greatest:
  assumes "loopVar env = PerIteration"
    and "ListDiskImages env c [] = Inr catalog"
    and "\<exists>e\<in>set catalog. nameHas name e"
    and "versionOrder (semverCompare env) (filter (nameHas name) catalog)"
  shows "\<exists>pre r post. filter (nameHas name) catalog = pre @ r # post \<and>
           GetMostRecentDistro env c name = Inr r \<and>
           (\<forall>e\<in>set pre. semverCompare env (Version e) (Version r) < 0) \<and>
           (\<forall>e\<in>set post. semverCompare env (Version e) (Version r) \<le> 0)"
proof -
  from assms(3) have "filter (nameHas name) catalog \<noteq> []"
    by (simp add: filter_empty_conv)
  from pickLoop_greatest [OF this assms(4)] obtain pre r post where
    *: "filter (nameHas name) catalog = pre @ r # post"
    "pickLoop (semverCompare env) None (filter (nameHas name) catalog) = Some r"
    "\<forall>e\<in>set pre. semverCompare env (Version e) (Version r) < 0"
    "\<forall>e\<in>set post. semverCompare env (Version e) (Version r) \<le> 0"
    by blast
  from *(2) have "GetMostRecentDistro env c name = Inr r"
    by (simp add: GetMostRecentDistro_PerIteration [OF assms(1,2)])
  with *(1,3,4) show ?thesis by blast
qed

lemma semver_examples:
  "semver_Compare ''v1.2.0'' ''v1.10.0'' = - 1"
  "semver_Compare ''v1.10.0'' ''v1.2.0'' = 1"
  "semver_Compare ''v1.2.0'' ''v1.2.0'' = 0"
  "semver_Compare ''v1.10.0'' ''v1.10.0'' = 0"
  by code_simp+

lemma two_split:
  "[a, b] = pre @ r # post \<longleftrightarrow>
     (pre = [] \<and> r = a \<and> post = [b]) \<or> (pre = [a] \<and> r = b \<and> post = [])"
  by (auto simp: Cons_eq_append_conv)

lemma semver_tie_examples:
  "semver_Compare ''v1.10.0'' ''v1.10.0+b1'' = 0"
  "semver_Compare ''v1.10.0+b1'' ''v1.10.0'' = 0"
  "semver_Compare ''v1.10.0+b1'' ''v1.10.0+b1'' = 0"
  "semver_Compare ''v1.2.0'' ''v1.10.0+b1'' = - 1"
  "semver_Compare ''v1.10.0+b1'' ''v1.2.0'' = 1"
  by code_simp+

lemma three_split:
  "[a, b, c] = pre @ r # post \<longleftrightarrow>
     (pre = [] \<and> r = a \<and> post = [b, c]) \<or> (pre = [a] \<and> r = b \<and> post = [c]) \<or>
     (pre = [a, b] \<and> r = c \<and> post = [])"
  by (auto simp: Cons_eq_append_conv)

lemma GetMostRecentDistro_greatest_witness:
  "GetMostRecentDistro
     (cannedEnv [image ''h1'' ''debian'' ''v1.2.0'', image ''h2'' ''debian'' ''v1.10.0'',
                 image ''h3'' ''ubuntu'' ''v22.4.0''])
     (cannedClient []) ''debian''
   = Inr (image ''h2'' ''debian'' ''v1.10.0'') \<and>
   GetMostRecentDistro
     (cannedEnv [image ''k1'' ''debian-a'' ''v1.10.0'', image ''k2'' ''debian-b'' ''v1.2.0'',
                 image ''k3'' ''debian-c'' ''v1.10.0+b1''])
     (cannedClient []) ''debian''
   = Inr (image ''k1'' ''debian-a'' ''v1.10.0'')"
proof -
  have first: "GetMostRecentDistro
     (cannedEnv [image ''h1'' ''debian'' ''v1.2.0'', image ''h2'' ''debian'' ''v1.10.0'',
                 image ''h3'' ''ubuntu'' ''v22.4.0''])
     (cannedClient []) ''debian''
   = Inr (image ''h2'' ''debian'' ''v1.10.0'')"
  proof -
    let ?imgs = "[image ''h1'' ''debian'' ''v1.2.0'', image ''h2'' ''debian'' ''v1.10.0'',
                   image ''h3'' ''ubuntu'' ''v22.4.0'']"
    let ?env = "cannedEnv ?imgs"
    have pi: "loopVar ?env = PerIteration" and cmp: "semverCompare ?env = semver_Compare"
      by (simp_all add: cannedEnv_def)
    have l: "ListDiskImages ?env (cannedClient []) [] = Inr ?imgs"
      by (simp add: canned_list keepImage_def image_def)
    have f: "filter (nameHas ''debian'') ?imgs =
        [image ''h1'' ''debian'' ''v1.2.0'', image ''h2'' ''debian'' ''v1.10.0'']"
      by (simp add: nameHas_def image_def Contains_iff_sublist [symmetric])
    have ex: "\<exists>e\<in>set ?imgs. nameHas ''debian'' e"
      by (simp add: nameHas_def image_def)
    have vo: "versionOrder (semverCompare ?env) (filter (nameHas ''debian'') ?imgs)"
      unfolding cmp by (rule semver_Compare_versionOrder)
    from GetMostRecentDistro_greatest [OF pi l ex vo] obtain pre r post where
      d: "filter (nameHas ''debian'') ?imgs = pre @ r # post"
      and g: "GetMostRecentDistro ?env (cannedClient []) ''debian'' = Inr r"
      and p: "\<forall>e\<in>set post. semverCompare ?env (Version e) (Version r) \<le> 0"
      by blast
    from d have "(pre = [] \<and> r = image ''h1'' ''debian'' ''v1.2.0'' \<and> post = [image ''h2'' ''debian'' ''v1.10.0''])
        \<or> (pre = [image ''h1'' ''debian'' ''v1.2.0''] \<and> r = image ''h2'' ''debian'' ''v1.10.0'' \<and> post = [])"
      unfolding f two_split .
    with p have "r = image ''h2'' ''debian'' ''v1.10.0''"
      unfolding cmp by (auto simp: image_def semver_examples)
    with g show ?thesis by simp
  qed
  have second: "GetMostRecentDistro
     (cannedEnv [image ''k1'' ''debian-a'' ''v1.10.0'', image ''k2'' ''debian-b'' ''v1.2.0'',
                 image ''k3'' ''debian-c'' ''v1.10.0+b1''])
     (cannedClient []) ''debian''
   = Inr (image ''k1'' ''debian-a'' ''v1.10.0'')"
  proof -
    let ?imgs = "[image ''k1'' ''debian-a'' ''v1.10.0'', image ''k2'' ''debian-b'' ''v1.2.0'',
                   image ''k3'' ''debian-c'' ''v1.10.0+b1'']"
    let ?env = "cannedEnv ?imgs"
    have pi: "loopVar ?env = PerIteration" and cmp: "semverCompare ?env = semver_Compare"
      by (simp_all add: cannedEnv_def)
    have l: "ListDiskImages ?env (cannedClient []) [] = Inr ?imgs"
      by (simp add: canned_list keepImage_def image_def)
    have f: "filter (nameHas ''debian'') ?imgs = ?imgs"
      by (simp add: nameHas_def image_def Contains_iff_sublist [symmetric])
    have ex: "\<exists>e\<in>set ?imgs. nameHas ''debian'' e"
      by (simp add: nameHas_def image_def)
    have vo: "versionOrder (semverCompare ?env) (filter (nameHas ''debian'') ?imgs)"
      unfolding cmp by (rule semver_Compare_versionOrder)
    from GetMostRecentDistro_greatest [OF pi l ex vo] obtain pre r post where
      d: "filter (nameHas ''debian'') ?imgs = pre @ r # post"
      and g: "GetMostRecentDistro ?env (cannedClient []) ''debian'' = Inr r"
      and p: "\<forall>e\<in>set pre. semverCompare ?env (Version e) (Version r) < 0"
      and q: "\<forall>e\<in>set post. semverCompare ?env (Version e) (Version r) \<le> 0"
      by blast
    from d have "(pre = [] \<and> r = image ''k1'' ''debian-a'' ''v1.10.0'' \<and>
          post = [image ''k2'' ''debian-b'' ''v1.2.0'', image ''k3'' ''debian-c'' ''v1.10.0+b1''])
        \<or> (pre = [image ''k1'' ''debian-a'' ''v1.10.0''] \<and> r = image ''k2'' ''debian-b'' ''v1.2.0'' \<and>
          post = [image ''k3'' ''debian-c'' ''v1.10.0+b1''])
        \<or> (pre = [image ''k1'' ''debian-a'' ''v1.10.0'', image ''k2'' ''debian-b'' ''v1.2.0''] \<and>
          r = image ''k3'' ''debian-c'' ''v1.10.0+b1'' \<and> post = [])"
      unfolding f three_split .
    with p q have "r = image ''k1'' ''debian-a'' ''v1.10.0''"
      unfolding cmp by (auto simp: image_def semver_examples semver_tie_examples)
    with g show ?thesis by simp
  qed
  from first second show ?thesis by simp
qed

lemma semver_Compare_invalid:
  "\<not> semver_IsValid v \<Longrightarrow> \<not> semver_IsValid w \<Longrightarrow> semver_Compare v w = 0"
  by (simp add: semver_IsValid_def semver_Compare_def)

lemma pickLoop_keeps:
  "\<forall>e\<in>set es. \<not> cmp (Version b) (Version e) < 0 \<Longrightarrow> pickLoop cmp (Some b) es = Some b"
  by (induction es) (auto simp: pickStep_def)

text \<open>
  With a loop variable per iteration and the library's comparison, when some entry matches
  and the version of every matching entry is invalid, all comparisons between matching
  entries give 0 and \<open>GetMostRecentDistro\<close> returns the first matching entry of the
  catalog.
\<close>

lemma GetMostRecentDistro_invalid_versions:
  assumes "loopVar env = PerIteration"
    and "semverCompare env = semver_Compare"
    and "ListDiskImages env c [] = Inr catalog"
    and "\<exists>e\<in>set catalog. nameHas name e"
    and "\<forall>e\<in>set catalog. nameHas name e \<longrightarrow> \<not> semver_IsValid (Version e)"
  shows "(\<forall>a\<in>set (filter (nameHas name) catalog). \<forall>b\<in>set (filter (nameHas name) catalog).
            semverCompare env (Version a) (Version b) = 0) \<and>
         (\<exists>r rest. filter (nameHas name) catalog = r # rest \<and>
            GetMostRecentDistro env c name = Inr r)"
proof -
  have eq: "\<forall>a\<in>set (filter (nameHas name) catalog). \<forall>b\<in>set (filter (nameHas name) catalog).
      semverCompare env (Version a) (Version b) = 0"
    using assms(2,5) by (simp add: semver_Compare_invalid)
  from assms(4) obtain r rest where f: "filter (nameHas name) catalog = r # rest"
    by (cases "filter (nameHas name) catalog") (auto simp: filter_empty_conv)
  from eq have "\<forall>e\<in>set rest. \<not> semverCompare env (Version r) (Version e) < 0"
    unfolding f by simp
  then have "pickLoop (semverCompare env) None (r # rest) = Some r"
    by (simp add: pickStep_def pickLoop_keeps)
  then have "GetMostRecentDistro env c name = Inr r"
    by (simp add: GetMostRecentDistro_PerIteration [OF assms(1,3)] f)
  with eq f show ?thesis by blast
qed

lemma invalid_examples:
  "\<not> semver_IsValid ''10''" "\<not> semver_IsValid ''9''" "\<not> semver_IsValid ''1.10.0''"
  by code_simp+

lemma GetMostRecentDistro_invalid_versions_witness:
  "GetMostRecentDistro
     (cannedEnv [image ''i1'' ''centos-7'' ''7'', image ''i2'' ''debian-9'' ''9'',
                 image ''i3'' ''debian-10'' ''10'', image ''i4'' ''debian-x'' ''1.10.0''])
     (cannedClient []) ''debian''
   = Inr (image ''i2'' ''debian-9'' ''9'')"
proof -
  let ?imgs = "[image ''i1'' ''centos-7'' ''7'', image ''i2'' ''debian-9'' ''9'',
                 image ''i3'' ''debian-10'' ''10'', image ''i4'' ''debian-x'' ''1.10.0'']"
  let ?env = "cannedEnv ?imgs"
  have pi: "loopVar ?env = PerIteration" and cmp: "semverCompare ?env = semver_Compare"
    by (simp_all add: cannedEnv_def)
  have l: "ListDiskImages ?env (cannedClient []) [] = Inr ?imgs"
    by (simp add: canned_list keepImage_def image_def)
  have f: "filter (nameHas ''debian'') ?imgs =
      [image ''i2'' ''debian-9'' ''9'', image ''i3'' ''debian-10'' ''10'',
       image ''i4'' ''debian-x'' ''1.10.0'']"
    by (simp add: nameHas_def image_def Contains_iff_sublist [symmetric])
  have ex: "\<exists>e\<in>set ?imgs. nameHas ''debian'' e"
    by (simp add: nameHas_def image_def)
  have inv: "\<forall>e\<in>set ?imgs. nameHas ''debian'' e \<longrightarrow> \<not> semver_IsValid (Version e)"
    by (simp add: nameHas_def image_def invalid_examples Contains_iff_sublist [symmetric])
  from GetMostRecentDistro_invalid_versions [OF pi cmp l ex inv] show ?thesis
    unfolding f by simp
qed

text \<open>
  The code checks nothing after decoding. A decoder that leaves the fields of an empty
  JSON object at their zero values, as \<open>encoding/json\<close> does, yields an entry with an
  empty id and name, and both operations return it.
\<close>

theorem decode_zero_value_counterexample:
  "ListDiskImages (cannedEnv [zeroDiskImage]) (cannedClient ''[{}]'') [] = Inr [zeroDiskImage] \<and>
   GetDiskImage (cannedEnv [zeroDiskImage]) (cannedClient ''{}'') ''x'' = Inr (Some zeroDiskImage) \<and>
   ID zeroDiskImage = [] \<and> Name zeroDiskImage = []"
proof -
  have "ListDiskImages (cannedEnv [zeroDiskImage]) (cannedClient ''[{}]'') [] = Inr [zeroDiskImage]"
    by (simp add: canned_list keepImage_def zeroDiskImage_def)
  moreover have "GetDiskImage (cannedEnv [zeroDiskImage]) (cannedClient ''{}'') ''x''
      = Inr (Some zeroDiskImage)"
    by (simp add: GetDiskImage_def cannedEnv_def cannedClient_def)
  ultimately show ?thesis
    by (simp add: zeroDiskImage_def)
qed

text \<open>
  Claim C8, amended. An entry returned by \<open>ListDiskImages\<close> is one of the entries that the
  decoder produced from the response, and the entry returned by \<open>GetDiskImage\<close> is the one
  the decoder produced; so returned entries have a non-empty id and name whenever the
  decoded entries have.
\<close>

theorem decoded_entries_unchanged:
  "(ListDiskImages env c includeCustom = Inr out \<longrightarrow>
      (\<exists>resp diskImages. SendGetRequest c (listURL includeCustom) = Inr resp \<and>
         jsonDecodeList env resp = Inr diskImages \<and> set out \<subseteq> set diskImages \<and>
         ((\<forall>e\<in>set diskImages. ID e \<noteq> [] \<and> Name e \<noteq> []) \<longrightarrow>
          (\<forall>e\<in>set out. ID e \<noteq> [] \<and> Name e \<noteq> [])))) \<and>
   (GetDiskImage env c id' = Inr (Some d) \<longrightarrow>
      (\<exists>resp. SendGetRequest c (''/v2/disk_images/'' @ id') = Inr resp \<and>
         jsonDecodeOne env resp = Inr (Some d)))"
proof (intro conjI impI)
  assume "ListDiskImages env c includeCustom = Inr out"
  from ListDiskImages_InrD [OF this] obtain resp diskImages where
    "SendGetRequest c (listURL includeCustom) = Inr resp"
    "jsonDecodeList env resp = Inr diskImages" "out = filter keepImage diskImages"
    by blast
  then show "\<exists>resp diskImages. SendGetRequest c (listURL includeCustom) = Inr resp \<and>
         jsonDecodeList env resp = Inr diskImages \<and> set out \<subseteq> set diskImages \<and>
         ((\<forall>e\<in>set diskImages. ID e \<noteq> [] \<and> Name e \<noteq> []) \<longrightarrow>
          (\<forall>e\<in>set out. ID e \<noteq> [] \<and> Name e \<noteq> []))"
    by (intro exI [of _ resp] exI [of _ diskImages]) auto
next
  assume "GetDiskImage env c id' = Inr (Some d)"
  then show "\<exists>resp. SendGetRequest c (''/v2/disk_images/'' @ id') = Inr resp \<and>
         jsonDecodeOne env resp = Inr (Some d)"
    by (auto simp: GetDiskImage_def split: sum.splits)
qed

theorem decoded_entries_unchanged_witness:
  "ListDiskImages (cannedEnv [image ''j1'' ''debian-10'' ''v10.0.0'', image ''j2'' ''talos-1'' ''v1.0.0''])
     (cannedClient []) [] = Inr [image ''j1'' ''debian-10'' ''v10.0.0''] \<and>
   GetDiskImage (cannedEnv [image ''j1'' ''debian-10'' ''v10.0.0'', image ''j2'' ''talos-1'' ''v1.0.0''])
     (cannedClient []) ''j1'' = Inr (Some (image ''j1'' ''debian-10'' ''v10.0.0'')) \<and>
   jsonDecodeOne (cannedEnv [image ''j1'' ''debian-10'' ''v10.0.0'', image ''j2'' ''talos-1'' ''v1.0.0''])
     [] = Inr (Some (image ''j1'' ''debian-10'' ''v10.0.0''))"
proof -
  let ?imgs = "[image ''j1'' ''debian-10'' ''v10.0.0'', image ''j2'' ''talos-1'' ''v1.0.0'']"
  have l: "ListDiskImages (cannedEnv ?imgs) (cannedClient []) []
      = Inr [image ''j1'' ''debian-10'' ''v10.0.0'']"
    by (simp add: canned_list keepImage_def image_def)
  have g: "GetDiskImage (cannedEnv ?imgs) (cannedClient []) ''j1''
      = Inr (Some (image ''j1'' ''debian-10'' ''v10.0.0''))"
    by (simp add: GetDiskImage_def cannedEnv_def cannedClient_def)
  from decoded_entries_unchanged
    [of "cannedEnv ?imgs" "cannedClient []" "[]" "[image ''j1'' ''debian-10'' ''v10.0.0'']"
        "''j1''" "image ''j1'' ''debian-10'' ''v10.0.0''"] l g
  have "\<exists>resp. SendGetRequest (cannedClient []) (''/v2/disk_images/'' @ ''j1'') = Inr resp \<and>
      jsonDecodeOne (cannedEnv ?imgs) resp = Inr (Some (image ''j1'' ''debian-10'' ''v10.0.0''))"
    by blast
  then have "jsonDecodeOne (cannedEnv ?imgs) [] = Inr (Some (image ''j1'' ''debian-10'' ''v10.0.0''))"
    by (auto simp: cannedClient_def)
  with l g show ?thesis by simp
qed

subsection \<open>One variable for the whole loop\<close>




end
